theory Spec2Isabelle
  imports Main
begin

section \<open>The native layer\<close>

text \<open>
  \<^verbatim>\<open>src/index.ts\<close> imports \<^verbatim>\<open>registerHotkey\<close>, \<^verbatim>\<open>Modifiers\<close>, \<^verbatim>\<open>openWebview\<close> and
  \<^verbatim>\<open>registerAltRelease\<close> from the module \<^verbatim>\<open>$native\<close>. The module is a platform layer outside
  the repository; its state is kept here as a record, and every call the program makes into it
  is appended to a trace, so that "called once" and "not called" are statements about a list.
\<close>

text \<open>
  Modelled from the spec: the enumeration \<^verbatim>\<open>Modifiers\<close> of \<^verbatim>\<open>$native\<close>. \<^verbatim>\<open>Modifiers.Alt\<close> is
  the only member the program names, and the only one kept.
\<close>

datatype Modifiers = Alt

text \<open>
  The program passes two arrow functions to the native layer: the one at line 11 (to
  \<^verbatim>\<open>registerHotkey\<close>) and the one at line 24 (to \<^verbatim>\<open>registerAltRelease\<close>). A registered
  callback is stored as the name of its arrow function; the bodies are \<open>press_handler\<close> and
  \<open>release_handler\<close> below.
\<close>

datatype hotkey_closure = PressHandler

datatype release_closure = ReleaseHandler

record webview =
  title :: string
  width :: nat
  height :: nat
  shown :: bool
  html :: string
  alive :: bool

datatype call =
    OpenWebview string nat nat
  | SetHtml nat string
  | SetVisible nat bool
  | Exit nat
  | RegisterHotkey Modifiers nat
  | RegisterAltRelease

record native =
  webviews :: "webview list"
  hotkeys :: "(Modifiers \<times> nat \<times> hotkey_closure) list"
  pending :: "release_closure list"
  calls :: "call list"

definition native0 :: native where
  "native0 = \<lparr>webviews = [], hotkeys = [], pending = [], calls = []\<rparr>"

text \<open>
  Modelled from the spec: the functions of \<^verbatim>\<open>$native\<close>, which are not in the repository.
  \<^verbatim>\<open>openWebview(title, width, height)\<close> creates a surface and returns its handle (here the
  index of the surface in \<open>webviews\<close>); a new surface is hidden and empty.
  \<^verbatim>\<open>handle.setVisible(b)\<close> shows or hides it, \<^verbatim>\<open>handle.setHtml(markup)\<close> replaces its
  content, \<^verbatim>\<open>handle.exit()\<close> tears it down. The program only ever uses the handle that
  \<^verbatim>\<open>openWebview\<close> returned; on an index that names no surface the list of surfaces is left
  as it is and only the call is recorded.
\<close>

definition openWebview ::
  "string \<Rightarrow> nat \<Rightarrow> nat \<Rightarrow> 'a native_scheme \<Rightarrow> nat \<times> 'a native_scheme" where
  "openWebview t w h n =
     (length (webviews n),
      n\<lparr>webviews := webviews n @
           [\<lparr>title = t, width = w, height = h, shown = False, html = [], alive = True\<rparr>],
        calls := calls n @ [OpenWebview t w h]\<rparr>)"

definition update_webview ::
  "nat \<Rightarrow> (webview \<Rightarrow> webview) \<Rightarrow> webview list \<Rightarrow> webview list" where
  "update_webview h f ws = (if h < length ws then ws[h := f (ws ! h)] else ws)"

definition setVisible :: "nat \<Rightarrow> bool \<Rightarrow> 'a native_scheme \<Rightarrow> 'a native_scheme" where
  "setVisible h b n =
     n\<lparr>webviews := update_webview h (\<lambda>w. w\<lparr>shown := b\<rparr>) (webviews n),
       calls := calls n @ [SetVisible h b]\<rparr>"

definition setHtml :: "nat \<Rightarrow> string \<Rightarrow> 'a native_scheme \<Rightarrow> 'a native_scheme" where
  "setHtml h m n =
     n\<lparr>webviews := update_webview h (\<lambda>w. w\<lparr>html := m\<rparr>) (webviews n),
       calls := calls n @ [SetHtml h m]\<rparr>"

definition exit :: "nat \<Rightarrow> 'a native_scheme \<Rightarrow> 'a native_scheme" where
  "exit h n =
     n\<lparr>webviews := update_webview h (\<lambda>w. w\<lparr>alive := False\<rparr>) (webviews n),
       calls := calls n @ [Exit h]\<rparr>"

text \<open>
  Modelled from the spec: \<^verbatim>\<open>registerHotkey(modifier, keyCode, onPress)\<close> invokes
  \<^verbatim>\<open>onPress\<close> each time the combination is pressed, for the lifetime of the process;
  \<^verbatim>\<open>registerAltRelease(onRelease)\<close> invokes \<^verbatim>\<open>onRelease\<close> exactly once, the next time the
  modifier is released (the one-shot contract). Registration stores the callback; the
  invocation is \<open>deliver\<close> below.
\<close>

definition registerHotkey ::
  "Modifiers \<Rightarrow> nat \<Rightarrow> hotkey_closure \<Rightarrow> 'a native_scheme \<Rightarrow> 'a native_scheme" where
  "registerHotkey m k f n =
     n\<lparr>hotkeys := hotkeys n @ [(m, k, f)], calls := calls n @ [RegisterHotkey m k]\<rparr>"

definition registerAltRelease :: "release_closure \<Rightarrow> 'a native_scheme \<Rightarrow> 'a native_scheme" where
  "registerAltRelease f n =
     n\<lparr>pending := pending n @ [f], calls := calls n @ [RegisterAltRelease]\<rparr>"

section \<open>The program: \<^verbatim>\<open>src/index.ts\<close>\<close>

text \<open>
  The two top-level bindings of the module: \<^verbatim>\<open>const wv\<close> (the handle) and
  \<^verbatim>\<open>let visible\<close>. The record extends the native state, so that one value holds everything
  a handler can reach. \<open>writes\<close> is a log, oldest first, of the values stored into \<^verbatim>\<open>visible\<close> (the
  initialisation of line 10 and the assignments of lines 23 and 26), as \<open>calls\<close> is the log
  of the calls into the native layer.

  \<open>generator\<close> is the state of the engine's random number generator, which
  \<^verbatim>\<open>Math.random()\<close> (line 17) reads and advances: state of the whole process, shared with
  every other caller of \<^verbatim>\<open>Math.random()\<close>. The algorithm is the engine's, not the
  program's, so the state is kept as the number of draws made so far (each call moves the
  generator on to a state it has not been in), and the text a draw renders to is given with
  the event during which it is made.
\<close>

record state = native +
  wv :: nat
  visible :: bool
  writes :: "bool list"
  generator :: nat

definition Math_random :: "string \<Rightarrow> 'a state_scheme \<Rightarrow> string \<times> 'a state_scheme" where
  "Math_random rnd s = (rnd, s\<lparr>generator := Suc (generator s)\<rparr>)"

definition assign_visible :: "bool \<Rightarrow> 'a state_scheme \<Rightarrow> 'a state_scheme" where
  "assign_visible b s = s\<lparr>visible := b, writes := writes s @ [b]\<rparr>"

text \<open>
  The template literal of lines 12 to 20. \<^verbatim>\<open>${Math.random()}\<close> is the only hole; the text
  that the value of \<^verbatim>\<open>Math.random()\<close> renders to is the argument.
\<close>

definition nl :: char where
  "nl = CHR 0x0A"

definition tab :: char where
  "tab = CHR 0x09"

definition markup :: "string \<Rightarrow> string" where
  "markup rnd =
     [nl, tab, tab] @ ''<html>'' @
     [nl, tab, tab] @ ''<head>'' @
     [nl, tab, tab] @ ''</head>'' @
     [nl, tab, tab] @ ''<body>'' @
     [nl, tab, tab] @ ''<div>Hello World '' @ rnd @ ''</div>'' @
     [nl, tab, tab] @ ''</body>'' @
     [nl, tab, tab] @ ''</html>'' @
     [nl, tab, tab]"

text \<open>Lines 24 to 27: the callback given to \<^verbatim>\<open>registerAltRelease\<close>.\<close>

definition release_handler :: "'a state_scheme \<Rightarrow> 'a state_scheme" where
  "release_handler s = (let s1 = setVisible (wv s) False s in assign_visible False s1)"

text \<open>
  Lines 11 to 28: the callback given to \<^verbatim>\<open>registerHotkey\<close>. The argument of
  \<^verbatim>\<open>setHtml\<close> is evaluated first, which draws from the generator (line 17); then comes the
  content update of line 12, and the guard of line 21 after it.
\<close>

definition press_handler :: "string \<Rightarrow> 'a state_scheme \<Rightarrow> 'a state_scheme" where
  "press_handler rnd s =
     (let (x, s0) = Math_random rnd s;
          s1 = setHtml (wv s0) (markup x) s0 in
      if visible s1 then s1
      else
        let s2 = setVisible (wv s1) True s1;
            s3 = assign_visible True s2
        in registerAltRelease ReleaseHandler s3)"

fun call_hotkey_closure ::
  "hotkey_closure \<Rightarrow> string \<Rightarrow> 'a state_scheme \<Rightarrow> 'a state_scheme" where
  "call_hotkey_closure PressHandler rnd s = press_handler rnd s"

fun call_release_closure :: "release_closure \<Rightarrow> 'a state_scheme \<Rightarrow> 'a state_scheme" where
  "call_release_closure ReleaseHandler s = release_handler s"

text \<open>
  Lines 8 to 11, the module body: open the surface, initialise the flag, register the hotkey
  Alt + 0x41. The module body makes no draw from the generator.
\<close>

definition main :: state where
  "main =
     (let (h, n1) = openWebview ''test'' 400 400 native0;
          s = \<lparr>webviews = webviews n1, hotkeys = hotkeys n1, pending = pending n1,
               calls = calls n1, wv = h, visible = False, writes = [False], generator = 0\<rparr>
      in registerHotkey Alt 0x41 PressHandler s)"

section \<open>Events\<close>

text \<open>
  Modelled from the spec: how the native layer invokes the registered callbacks. The process
  reacts to two events. A press of a combination runs, in registration order, every callback
  registered for that combination; the event carries the text \<^verbatim>\<open>Math.random()\<close> renders to
  while the callback runs. A release of the modifier takes the pending one-shot callbacks off
  the list and runs each of them once, so that a callback is invoked exactly once, at the next
  release after its registration.
\<close>

datatype event = HotkeyPress Modifiers nat string | AltRelease

fun deliver :: "event \<Rightarrow> 'a state_scheme \<Rightarrow> 'a state_scheme" where
  "deliver (HotkeyPress m k rnd) s =
     foldl (\<lambda>s' (m', k', f). if m' = m \<and> k' = k then call_hotkey_closure f rnd s' else s')
       s (hotkeys s)"
| "deliver AltRelease s =
     foldl (\<lambda>s' f. call_release_closure f s') (s\<lparr>pending := []\<rparr>) (pending s)"

fun run :: "event list \<Rightarrow> 'a state_scheme \<Rightarrow> 'a state_scheme" where
  "run [] s = s"
| "run (e # es) s = run es (deliver e s)"

text \<open>The press of the registered combination, and one press/release cycle per given text.\<close>

definition press :: "string \<Rightarrow> event" where
  "press rnd = HotkeyPress Alt 0x41 rnd"

definition cycles :: "string list \<Rightarrow> event list" where
  "cycles rs = concat (map (\<lambda>r. [press r, AltRelease]) rs)"

section \<open>Reading the logs\<close>

text \<open>The arguments of the \<^verbatim>\<open>setVisible\<close> calls of a trace, in order.\<close>

fun setVisible_args :: "call list \<Rightarrow> bool list" where
  "setVisible_args [] = []"
| "setVisible_args (SetVisible h b # cs) = b # setVisible_args cs"
| "setVisible_args (c # cs) = setVisible_args cs"

fun is_setHtml :: "call \<Rightarrow> bool" where
  "is_setHtml (SetHtml h m) = True"
| "is_setHtml c = False"

fun is_openWebview :: "call \<Rightarrow> bool" where
  "is_openWebview (OpenWebview t w h) = True"
| "is_openWebview c = False"

fun is_exit :: "call \<Rightarrow> bool" where
  "is_exit (Exit h) = True"
| "is_exit c = False"

text \<open>The handle a call is made on, for the calls that are methods of a handle.\<close>

fun handle_of :: "call \<Rightarrow> nat option" where
  "handle_of (SetHtml h m) = Some h"
| "handle_of (SetVisible h b) = Some h"
| "handle_of (Exit h) = Some h"
| "handle_of c = None"

text \<open>
  The order of the toggle's calls. A trace is in order when its \<^verbatim>\<open>setVisible(true)\<close>,
  \<^verbatim>\<open>registerAltRelease\<close> and \<^verbatim>\<open>setVisible(false)\<close> calls come in rounds of exactly that
  sequence: a registration only right after a show, a hide (the registered callback firing)
  only after a registration, and the next show only after the hide. \<open>phase_run\<close> reads a
  trace from a phase and returns the phase it ends in, or \<open>None\<close> at the first call out of
  order; the other calls do not move the phase.
\<close>

datatype phase = Idle | Showing | Armed

fun phase_step :: "phase \<Rightarrow> call \<Rightarrow> phase option" where
  "phase_step p (SetVisible h b) =
     (if b then (if p = Idle then Some Showing else None)
      else (if p = Armed then Some Idle else None))"
| "phase_step p RegisterAltRelease = (if p = Showing then Some Armed else None)"
| "phase_step p c = Some p"

fun phase_run :: "phase \<Rightarrow> call list \<Rightarrow> phase option" where
  "phase_run p [] = Some p"
| "phase_run p (c # cs) = (case phase_step p c of None \<Rightarrow> None | Some q \<Rightarrow> phase_run q cs)"

text \<open>
  \<open>alternates b xs\<close>: the list reads \<open>b\<close>, \<open>\<not> b\<close>, \<open>b\<close>, and so on.
  \<open>set_true_twice xs\<close>: somewhere in the list \<open>True\<close> is directly followed by \<open>True\<close>.
\<close>

fun alternates :: "bool \<Rightarrow> bool list \<Rightarrow> bool" where
  "alternates b [] = True"
| "alternates b (x # xs) = (x = b \<and> alternates (\<not> b) xs)"

fun set_true_twice :: "bool list \<Rightarrow> bool" where
  "set_true_twice (True # True # xs) = True"
| "set_true_twice (x # xs) = set_true_twice xs"
| "set_true_twice [] = False"

text \<open>
  Forgetting the markup: a call with the argument of \<^verbatim>\<open>setHtml\<close> blanked, and an event
  with the text of \<^verbatim>\<open>Math.random()\<close> blanked. Two event sequences with the same
  \<open>shape\<close> are the same presses and releases, with possibly different random numbers.
\<close>

fun erase_markup :: "call \<Rightarrow> call" where
  "erase_markup (SetHtml h m) = SetHtml h []"
| "erase_markup c = c"

fun shape :: "event \<Rightarrow> event" where
  "shape (HotkeyPress m k rnd) = HotkeyPress m k []"
| "shape AltRelease = AltRelease"

text \<open>What of a surface is neither its visibility nor its content.\<close>

definition frame_of :: "webview \<Rightarrow> string \<times> nat \<times> nat \<times> bool" where
  "frame_of w = (title w, width w, height w, alive w)"

text \<open>
  The registrations as the module body leaves them and as the handlers keep them: the one
  hotkey, and a release callback pending exactly while \<^verbatim>\<open>visible\<close> is true.
\<close>

definition toggle_inv :: "'a state_scheme \<Rightarrow> bool" where
  "toggle_inv s \<longleftrightarrow>
     hotkeys s = [(Alt, 0x41, PressHandler)] \<and>
     pending s = (if visible s then [ReleaseHandler] else [])"

section \<open>The handlers, field by field\<close>

lemmas handler_defs =
  press_handler_def release_handler_def setHtml_def setVisible_def assign_visible_def
  registerAltRelease_def Math_random_def Let_def

lemma press_handler_calls:
  "calls (press_handler rnd s) =
     calls s @ (if visible s then [SetHtml (wv s) (markup rnd)]
                else [SetHtml (wv s) (markup rnd), SetVisible (wv s) True, RegisterAltRelease])"
  by (simp add: handler_defs)

lemma press_handler_visible_after: "visible (press_handler rnd s)"
  by (simp add: handler_defs)

lemma press_handler_pending:
  "pending (press_handler rnd s) =
     (if visible s then pending s else pending s @ [ReleaseHandler])"
  by (simp add: handler_defs)

lemma press_handler_writes:
  "writes (press_handler rnd s) = (if visible s then writes s else writes s @ [True])"
  by (simp add: handler_defs)

lemma press_handler_frame:
  "hotkeys (press_handler rnd s) = hotkeys s"
  "wv (press_handler rnd s) = wv s"
  by (simp_all add: handler_defs)

lemma press_handler_generator: "generator (press_handler rnd s) = Suc (generator s)"
  by (simp add: handler_defs)

lemma press_handler_webviews:
  "webviews (press_handler rnd s) =
     (if visible s then update_webview (wv s) (\<lambda>w. w\<lparr>html := markup rnd\<rparr>) (webviews s)
      else update_webview (wv s) (\<lambda>w. w\<lparr>shown := True\<rparr>)
             (update_webview (wv s) (\<lambda>w. w\<lparr>html := markup rnd\<rparr>) (webviews s)))"
  by (simp add: handler_defs)

lemmas press_handler_fields =
  press_handler_calls press_handler_visible_after press_handler_pending press_handler_writes
  press_handler_frame press_handler_generator press_handler_webviews

lemma release_handler_fields:
  "calls (release_handler s) = calls s @ [SetVisible (wv s) False]"
  "visible (release_handler s) = False"
  "pending (release_handler s) = pending s"
  "writes (release_handler s) = writes s @ [False]"
  "hotkeys (release_handler s) = hotkeys s"
  "wv (release_handler s) = wv s"
  "generator (release_handler s) = generator s"
  "webviews (release_handler s) =
     update_webview (wv s) (\<lambda>w. w\<lparr>shown := False\<rparr>) (webviews s)"
  by (simp_all add: handler_defs)

lemma main_fields:
  "webviews main =
     [\<lparr>title = ''test'', width = 400, height = 400, shown = False, html = [], alive = True\<rparr>]"
  "hotkeys main = [(Alt, 0x41, PressHandler)]"
  "pending main = []"
  "calls main = [OpenWebview ''test'' 400 400, RegisterHotkey Alt 0x41]"
  "wv main = 0"
  "visible main = False"
  "writes main = [False]"
  "generator main = 0"
  by (simp_all add: main_def openWebview_def native0_def registerHotkey_def)

section \<open>Delivery in the states the program reaches\<close>

lemma toggle_inv_main: "toggle_inv main"
  by (simp add: toggle_inv_def main_fields)

lemma deliver_hotkey:
  "toggle_inv s \<Longrightarrow>
   deliver (HotkeyPress m k rnd) s = (if k = 0x41 then press_handler rnd s else s)"
  by (cases m) (simp add: toggle_inv_def)

lemma deliver_press: "toggle_inv s \<Longrightarrow> deliver (press rnd) s = press_handler rnd s"
  by (simp add: press_def deliver_hotkey del: deliver.simps)

lemma deliver_release:
  "toggle_inv s \<Longrightarrow>
   deliver AltRelease s = (if visible s then release_handler (s\<lparr>pending := []\<rparr>) else s)"
  by (simp add: toggle_inv_def)

lemma toggle_inv_deliver: "toggle_inv s \<Longrightarrow> toggle_inv (deliver e s)"
proof (cases e)
  case (HotkeyPress m k rnd)
  assume "toggle_inv s"
  then show ?thesis
    unfolding HotkeyPress deliver_hotkey [OF \<open>toggle_inv s\<close>]
    by (simp add: toggle_inv_def press_handler_fields)
next
  case AltRelease
  assume "toggle_inv s"
  then show ?thesis
    unfolding AltRelease deliver_release [OF \<open>toggle_inv s\<close>]
    by (simp add: toggle_inv_def release_handler_fields)
qed

lemma toggle_inv_run: "toggle_inv s \<Longrightarrow> toggle_inv (run evs s)"
  by (induction evs arbitrary: s) (simp_all add: toggle_inv_deliver)

lemma toggle_inv_reach: "toggle_inv (run evs main)"
  by (rule toggle_inv_run [OF toggle_inv_main])

section \<open>What no delivery changes\<close>

lemma run_append: "run (xs @ ys) s = run ys (run xs s)"
  by (induction xs arbitrary: s) simp_all

lemma run_snoc: "run (xs @ [e]) s = deliver e (run xs s)"
  by (simp add: run_append)

lemma foldl_keeps: "(\<And>s x. g (f s x) = g s) \<Longrightarrow> g (foldl f s xs) = g s"
  by (induction xs arbitrary: s) simp_all

lemma deliver_keeps:
  fixes g :: "'a state_scheme \<Rightarrow> 'b"
  assumes press: "\<And>rnd s. g (press_handler rnd s) = g s"
    and release: "\<And>s. g (release_handler s) = g s"
    and clear: "\<And>s. g (s\<lparr>pending := []\<rparr>) = g s"
  shows "g (deliver e s) = g s"
proof (cases e)
  case (HotkeyPress m k rnd)
  have "g (foldl (\<lambda>s' (m', k', f). if m' = m \<and> k' = k then call_hotkey_closure f rnd s' else s')
          s xs) = g s" for xs
  proof (rule foldl_keeps)
    fix s' :: "'a state_scheme" and x :: "Modifiers \<times> nat \<times> hotkey_closure"
    obtain m' k' f where x: "x = (m', k', f)" by (cases x)
    show "g (case x of (m', k', f) \<Rightarrow>
               if m' = m \<and> k' = k then call_hotkey_closure f rnd s' else s') = g s'"
      by (cases f) (simp add: x press)
  qed
  then show ?thesis by (simp add: HotkeyPress)
next
  case AltRelease
  have "g (foldl (\<lambda>s' f. call_release_closure f s') t xs) = g t" for t xs
  proof (rule foldl_keeps)
    fix s' :: "'a state_scheme" and f
    show "g (call_release_closure f s') = g s'"
      by (cases f) (simp add: release)
  qed
  then show ?thesis by (simp add: AltRelease clear)
qed

lemma run_keeps:
  fixes g :: "'a state_scheme \<Rightarrow> 'b"
  assumes "\<And>e s. g (deliver e s) = g s"
  shows "g (run evs s) = g s"
  by (induction evs arbitrary: s) (simp_all add: assms)

lemma update_webview_frame:
  "(\<And>w. frame_of (f w) = frame_of w) \<Longrightarrow>
   map frame_of (update_webview h f ws) = map frame_of ws"
  by (simp add: update_webview_def map_update list_update_same_conv)


lemma deliver_wv: "wv (deliver e s) = wv s"
  by (rule deliver_keeps) (simp_all add: press_handler_fields release_handler_fields)


lemma frame_of_update:
  "frame_of (w\<lparr>html := m\<rparr>) = frame_of w"
  "frame_of (w\<lparr>shown := b\<rparr>) = frame_of w"
  by (simp_all add: frame_of_def)

lemma deliver_frames: "map frame_of (webviews (deliver e s)) = map frame_of (webviews s)"
  by (rule deliver_keeps)
    (simp_all add: press_handler_fields release_handler_fields update_webview_frame
      frame_of_update)



lemma deliver_opens:
  "filter is_openWebview (calls (deliver e s)) = filter is_openWebview (calls s)"
  by (rule deliver_keeps) (simp_all add: press_handler_fields release_handler_fields)

lemma deliver_exits: "filter is_exit (calls (deliver e s)) = filter is_exit (calls s)"
  by (rule deliver_keeps) (simp_all add: press_handler_fields release_handler_fields)

lemma reach_wv: "wv (run evs main) = 0"
  by (simp add: run_keeps [of wv, OF deliver_wv] main_fields)

lemma reach_frames: "map frame_of (webviews (run evs main)) = [(''test'', 400, 400, True)]"
  by (simp add: run_keeps [of "\<lambda>s. map frame_of (webviews s)", OF deliver_frames]
      main_fields frame_of_def)

section \<open>The logs of the states the program reaches\<close>

lemma phase_run_append:
  "phase_run p (xs @ ys) =
     (case phase_run p xs of None \<Rightarrow> None | Some q \<Rightarrow> phase_run q ys)"
  by (induction xs arbitrary: p) (simp_all split: option.splits)

lemma alternates_snoc:
  "alternates b (xs @ [y]) = (alternates b xs \<and> y = (b = even (length xs)))"
  by (induction xs arbitrary: b) auto

lemma alternates_not_twice: "alternates b xs \<Longrightarrow> \<not> set_true_twice xs"
proof (induction xs arbitrary: b)
  case Nil
  show ?case by simp
next
  case (Cons x xs)
  have tail: "\<not> set_true_twice xs"
    using Cons.IH [of "\<not> b"] Cons.prems by simp
  show ?case
  proof (cases xs)
    case Nil
    then show ?thesis by (cases x) simp_all
  next
    case (Cons y ys)
    with Cons.prems have "x \<noteq> y" by auto
    then show ?thesis
      using tail Cons by (cases x; cases y) simp_all
  qed
qed

lemma setVisible_args_append:
  "setVisible_args (xs @ ys) = setVisible_args xs @ setVisible_args ys"
  by (induction xs rule: setVisible_args.induct) simp_all

lemma setVisible_args_erase: "setVisible_args (map erase_markup cs) = setVisible_args cs"
  by (induction cs rule: setVisible_args.induct) simp_all

lemma reach_phase:
  "phase_run Idle (calls (run evs main)) =
     Some (if visible (run evs main) then Armed else Idle)"
proof (induction evs rule: rev_induct)
  case Nil
  show ?case by (simp add: main_fields)
next
  case (snoc e evs)
  note inv = toggle_inv_reach [of evs]
  show ?case
  proof (cases e)
    case (HotkeyPress m k rnd)
    then show ?thesis
      using snoc
      by (simp add: run_snoc deliver_hotkey [OF inv] press_handler_fields phase_run_append
          del: deliver.simps)
  next
    case AltRelease
    then show ?thesis
      using snoc
      by (simp add: run_snoc deliver_release [OF inv] release_handler_fields phase_run_append
          del: deliver.simps)
  qed
qed

lemma reach_writes:
  "alternates False (writes (run evs main)) \<and>
   visible (run evs main) = even (length (writes (run evs main)))"
proof (induction evs rule: rev_induct)
  case Nil
  show ?case by (simp add: main_fields)
next
  case (snoc e evs)
  note inv = toggle_inv_reach [of evs]
  show ?case
  proof (cases e)
    case (HotkeyPress m k rnd)
    then show ?thesis
      using snoc
      by (simp add: run_snoc deliver_hotkey [OF inv] press_handler_fields alternates_snoc
          del: deliver.simps)
  next
    case AltRelease
    then show ?thesis
      using snoc
      by (simp add: run_snoc deliver_release [OF inv] release_handler_fields alternates_snoc
          del: deliver.simps)
  qed
qed

lemma reach_setVisible_args:
  "alternates True (setVisible_args (calls (run evs main))) \<and>
   visible (run evs main) = odd (length (setVisible_args (calls (run evs main))))"
proof (induction evs rule: rev_induct)
  case Nil
  show ?case by (simp add: main_fields)
next
  case (snoc e evs)
  note inv = toggle_inv_reach [of evs]
  show ?case
  proof (cases e)
    case (HotkeyPress m k rnd)
    then show ?thesis
      using snoc
      by (simp add: run_snoc deliver_hotkey [OF inv] press_handler_fields alternates_snoc
          setVisible_args_append del: deliver.simps)
  next
    case AltRelease
    then show ?thesis
      using snoc
      by (simp add: run_snoc deliver_release [OF inv] release_handler_fields alternates_snoc
          setVisible_args_append del: deliver.simps)
  qed
qed

lemma run_cycles_hidden:
  "toggle_inv s \<Longrightarrow> \<not> visible s \<Longrightarrow> \<not> visible (run (cycles rs) s)"
proof (induction rs arbitrary: s)
  case Nil
  then show ?case by (simp add: cycles_def)
next
  case (Cons r rs)
  let ?s1 = "deliver (press r) s"
  let ?s2 = "deliver AltRelease ?s1"
  have inv1: "toggle_inv ?s1" by (rule toggle_inv_deliver [OF Cons.prems(1)])
  have inv2: "toggle_inv ?s2" by (rule toggle_inv_deliver [OF inv1])
  have vis1: "visible ?s1"
    by (simp add: deliver_press [OF Cons.prems(1)] press_handler_fields)
  have hid2: "\<not> visible ?s2"
    using vis1 by (simp add: deliver_release [OF inv1] release_handler_fields del: deliver.simps)
  have "cycles (r # rs) = press r # AltRelease # cycles rs"
    by (simp add: cycles_def)
  then show ?case
    using Cons.IH [OF inv2 hid2] by (simp del: deliver.simps)
qed

section \<open>Two runs of the same shape\<close>

lemma deliver_agree:
  assumes inv1: "toggle_inv s1" and inv2: "toggle_inv s2"
    and sh: "shape e1 = shape e2"
    and vis: "visible s1 = visible s2"
    and wv: "wv s1 = wv s2"
    and tr: "map erase_markup (calls s1) = map erase_markup (calls s2)"
  shows "visible (deliver e1 s1) = visible (deliver e2 s2) \<and>
         map erase_markup (calls (deliver e1 s1)) = map erase_markup (calls (deliver e2 s2))"
proof (cases e1)
  case (HotkeyPress m k r1)
  with sh obtain r2 where e2: "e2 = HotkeyPress m k r2"
    by (cases e2) simp_all
  show ?thesis
    using vis wv tr
    by (simp add: HotkeyPress e2 deliver_hotkey [OF inv1] deliver_hotkey [OF inv2]
        press_handler_fields del: deliver.simps)
next
  case AltRelease
  with sh have e2: "e2 = AltRelease"
    by (cases e2) simp_all
  show ?thesis
    using vis wv tr
    by (simp add: AltRelease e2 deliver_release [OF inv1] deliver_release [OF inv2]
        release_handler_fields del: deliver.simps)
qed

lemma run_agree:
  assumes "map shape evs1 = map shape evs2"
    and "toggle_inv s1" and "toggle_inv s2"
    and "visible s1 = visible s2"
    and "wv s1 = wv s2"
    and "map erase_markup (calls s1) = map erase_markup (calls s2)"
  shows "visible (run evs1 s1) = visible (run evs2 s2) \<and>
         map erase_markup (calls (run evs1 s1)) = map erase_markup (calls (run evs2 s2))"
  using assms
proof (induction evs1 arbitrary: evs2 s1 s2)
  case Nil
  then show ?case by simp
next
  case (Cons e1 es1)
  from Cons.prems(1) obtain e2 es2 where evs2: "evs2 = e2 # es2"
    and sh: "shape e1 = shape e2" and rest: "map shape es1 = map shape es2"
    by (cases evs2) auto
  note step = deliver_agree [OF Cons.prems(2) Cons.prems(3) sh Cons.prems(4) Cons.prems(5)
      Cons.prems(6)]
  have "visible (run es1 (deliver e1 s1)) = visible (run es2 (deliver e2 s2)) \<and>
        map erase_markup (calls (run es1 (deliver e1 s1))) =
        map erase_markup (calls (run es2 (deliver e2 s2)))"
  proof (rule Cons.IH [OF rest])
    show "toggle_inv (deliver e1 s1)" by (rule toggle_inv_deliver [OF Cons.prems(2)])
    show "toggle_inv (deliver e2 s2)" by (rule toggle_inv_deliver [OF Cons.prems(3)])
    show "visible (deliver e1 s1) = visible (deliver e2 s2)" using step by simp
    show "wv (deliver e1 s1) = wv (deliver e2 s2)" by (simp add: deliver_wv Cons.prems(5))
    show "map erase_markup (calls (deliver e1 s1)) = map erase_markup (calls (deliver e2 s2))"
      using step by simp
  qed
  then show ?case by (simp add: evs2 del: deliver.simps)
qed

lemma reach_agree:
  assumes "map shape evs1 = map shape evs2"
  shows "visible (run evs1 main) = visible (run evs2 main) \<and>
         map erase_markup (calls (run evs1 main)) = map erase_markup (calls (run evs2 main))"
  by (rule run_agree [OF assms toggle_inv_main toggle_inv_main]) simp_all

section \<open>Presses in a row, and the trace from startup\<close>

lemma deliver_press_registered:
  "hotkeys s = [(Alt, 0x41, PressHandler)] \<Longrightarrow> deliver (press rnd) s = press_handler rnd s"
  by (simp add: press_def)

lemma run_presses_while_visible:
  "hotkeys s = [(Alt, 0x41, PressHandler)] \<Longrightarrow> visible s \<Longrightarrow>
     visible (run (map press rs) s) \<and>
     calls (run (map press rs) s) = calls s @ map (\<lambda>r. SetHtml (wv s) (markup r)) rs \<and>
     pending (run (map press rs) s) = pending s \<and>
     writes (run (map press rs) s) = writes s"
proof (induction rs arbitrary: s)
  case Nil
  then show ?case by simp
next
  case (Cons r rs)
  have reg': "hotkeys (press_handler r s) = [(Alt, 0x41, PressHandler)]"
    using Cons.prems(1) by (simp add: press_handler_fields)
  show ?case
    using Cons.IH [OF reg' press_handler_visible_after] Cons.prems(2)
    by (simp add: deliver_press_registered [OF Cons.prems(1)] press_handler_fields
        del: deliver.simps)
qed

lemma reach_pending:
  "pending (run evs main) = (if visible (run evs main) then [ReleaseHandler] else [])"
  using toggle_inv_reach [of evs] by (simp add: toggle_inv_def)

lemma reach_calls_extend: "\<exists>cs. calls (run evs main) = calls main @ cs"
proof (induction evs rule: rev_induct)
  case Nil
  show ?case by simp
next
  case (snoc e evs)
  then obtain cs where cs: "calls (run evs main) = calls main @ cs" ..
  note inv = toggle_inv_reach [of evs]
  show ?case
  proof (cases e)
    case (HotkeyPress m k rnd)
    then show ?thesis
      by (simp add: run_snoc deliver_hotkey [OF inv] press_handler_fields cs
          del: deliver.simps)
  next
    case AltRelease
    then show ?thesis
      by (simp add: run_snoc deliver_release [OF inv] release_handler_fields cs
          del: deliver.simps)
  qed
qed

lemma reach_handles: "set (map handle_of (calls (run evs main))) \<subseteq> {None, Some 0}"
proof (induction evs rule: rev_induct)
  case Nil
  show ?case by (simp add: main_fields)
next
  case (snoc e evs)
  note inv = toggle_inv_reach [of evs]
  show ?case
  proof (cases e)
    case (HotkeyPress m k rnd)
    then show ?thesis
      using snoc
      by (simp add: run_snoc deliver_hotkey [OF inv] press_handler_fields reach_wv
          del: deliver.simps)
  next
    case AltRelease
    then show ?thesis
      using snoc
      by (simp add: run_snoc deliver_release [OF inv] release_handler_fields reach_wv
          del: deliver.simps)
  qed
qed

lemma reach_opens:
  "filter is_openWebview (calls (run evs main)) = [OpenWebview ''test'' 400 400]"
  by (simp add: run_keeps [of "\<lambda>s. filter is_openWebview (calls s)", OF deliver_opens]
      main_fields)

lemma reach_exits: "filter is_exit (calls (run evs main)) = []"
  by (simp add: run_keeps [of "\<lambda>s. filter is_exit (calls s)", OF deliver_exits]
      main_fields)

section \<open>The claims\<close>

text \<open>
  C1. While \<^verbatim>\<open>visible\<close> is true, any number of hotkey presses in a row (no release between
  them) performs no show: the calls the presses add to the trace are content updates only, so
  there is no further \<^verbatim>\<open>setVisible(true)\<close> and no further \<^verbatim>\<open>registerAltRelease\<close>; the
  pending release callbacks stay what they were; nothing is stored into \<^verbatim>\<open>visible\<close>. And
  over any sequence of events from the start of the process, \<^verbatim>\<open>visible\<close> is never set to
  true twice in a row.
\<close>

theorem visible_press_performs_no_show:
  "(visible s \<and> hotkeys s = [(Alt, 0x41, PressHandler)] \<longrightarrow>
      calls (run (map press rs) s) = calls s @ map (\<lambda>r. SetHtml (wv s) (markup r)) rs \<and>
      pending (run (map press rs) s) = pending s \<and>
      writes (run (map press rs) s) = writes s \<and>
      visible (run (map press rs) s)) \<and>
   \<not> set_true_twice (writes (run evs main))"
proof -
  have "\<not> set_true_twice (writes (run evs main))"
    using reach_writes [of evs] alternates_not_twice [of False "writes (run evs main)"]
    by simp
  then show ?thesis
    using run_presses_while_visible [of s rs] by simp
qed

theorem visible_press_performs_no_show_witness:
  "visible (deliver (press ''0.5'') main) \<and>
   hotkeys (deliver (press ''0.5'') main) = [(Alt, 0x41, PressHandler)] \<and>
   calls (run (map press [''0.6'', ''0.7'']) (deliver (press ''0.5'') main)) =
     [OpenWebview ''test'' 400 400, RegisterHotkey Alt 0x41,
      SetHtml 0 (markup ''0.5''), SetVisible 0 True, RegisterAltRelease,
      SetHtml 0 (markup ''0.6''), SetHtml 0 (markup ''0.7'')] \<and>
   pending (run (map press [''0.6'', ''0.7'']) (deliver (press ''0.5'') main)) =
     [ReleaseHandler] \<and>
   writes (run (map press [''0.6'', ''0.7'']) (deliver (press ''0.5'') main)) = [False, True]"
proof -
  let ?s = "deliver (press ''0.5'') main"
  have s: "?s = press_handler ''0.5'' main"
    by (rule deliver_press [OF toggle_inv_main])
  have vis: "visible ?s" and reg: "hotkeys ?s = [(Alt, 0x41, PressHandler)]"
    by (simp_all add: s press_handler_fields main_fields)
  show ?thesis
    using visible_press_performs_no_show [of ?s "[''0.6'', ''0.7'']" "[]"] vis reg
    by (simp add: s press_handler_fields main_fields del: deliver.simps run.simps)
qed

text \<open>
  C2, as stated, fails: in the scenario the second press, delivered while the toggle is
  Visible, does make a call on the popup surface, the content update \<^verbatim>\<open>setHtml\<close> of line 12,
  which comes before the guard of line 21.
\<close>

theorem second_press_calls_setHtml:
  "visible (run [press ''0.5''] main) \<and>
   calls (run [press ''0.5'', press ''0.7''] main) =
     calls (run [press ''0.5''] main) @ [SetHtml 0 (markup ''0.7'')] \<and>
   calls (run [press ''0.5'', press ''0.7''] main) \<noteq> calls (run [press ''0.5''] main)"
proof -
  have s: "deliver (press ''0.5'') main = press_handler ''0.5'' main"
    by (rule deliver_press [OF toggle_inv_main])
  have reg: "hotkeys (press_handler ''0.5'' main) = [(Alt, 0x41, PressHandler)]"
    by (simp add: press_handler_fields main_fields)
  show ?thesis
    by (simp add: s deliver_press_registered [OF reg] press_handler_fields main_fields
        del: deliver.simps)
qed

text \<open>
  C2, amended. From any Hidden state the process reaches: a press makes the state Visible
  and adds one \<^verbatim>\<open>setVisible(true)\<close> (after the content update, before the registration);
  a second press, while Visible, adds exactly one call, the content update \<^verbatim>\<open>setHtml\<close>, and
  no \<^verbatim>\<open>setVisible\<close> and no \<^verbatim>\<open>registerAltRelease\<close>; the release then makes the state Hidden
  and adds exactly one \<^verbatim>\<open>setVisible(false)\<close>.
\<close>

theorem scenario_press_press_release:
  "\<not> visible (run evs main) \<Longrightarrow>
     visible (run (evs @ [press r1]) main) \<and>
     calls (run (evs @ [press r1]) main) =
       calls (run evs main) @ [SetHtml 0 (markup r1), SetVisible 0 True, RegisterAltRelease] \<and>
     visible (run (evs @ [press r1, press r2]) main) \<and>
     calls (run (evs @ [press r1, press r2]) main) =
       calls (run (evs @ [press r1]) main) @ [SetHtml 0 (markup r2)] \<and>
     \<not> visible (run (evs @ [press r1, press r2, AltRelease]) main) \<and>
     calls (run (evs @ [press r1, press r2, AltRelease]) main) =
       calls (run (evs @ [press r1, press r2]) main) @ [SetVisible 0 False]"
proof -
  assume hid: "\<not> visible (run evs main)"
  let ?s0 = "run evs main"
  let ?s1 = "press_handler r1 ?s0"
  let ?s2 = "press_handler r2 ?s1"
  have inv0: "toggle_inv ?s0" by (rule toggle_inv_reach)
  have inv1: "toggle_inv ?s1"
    using toggle_inv_deliver [OF inv0, of "press r1"] by (simp add: deliver_press [OF inv0])
  have inv2: "toggle_inv ?s2"
    using toggle_inv_deliver [OF inv1, of "press r2"] by (simp add: deliver_press [OF inv1])
  have r1: "run (evs @ [press r1]) main = ?s1"
    by (simp add: run_append deliver_press [OF inv0] del: deliver.simps)
  have r2: "run (evs @ [press r1, press r2]) main = ?s2"
    by (simp add: run_append deliver_press [OF inv0] deliver_press [OF inv1]
        del: deliver.simps)
  have r3: "run (evs @ [press r1, press r2, AltRelease]) main =
            release_handler (?s2\<lparr>pending := []\<rparr>)"
    by (simp add: run_append deliver_press [OF inv0] deliver_press [OF inv1]
        deliver_release [OF inv2] press_handler_visible_after del: deliver.simps)
  show ?thesis
    unfolding r1 r2 r3 using hid
    by (simp add: press_handler_fields release_handler_fields reach_wv)
qed

theorem scenario_press_press_release_witness:
  "\<not> visible (run [] main) \<and>
   calls (run ([] @ [press ''0.5'', press ''0.7'', AltRelease]) main) =
     [OpenWebview ''test'' 400 400, RegisterHotkey Alt 0x41,
      SetHtml 0 (markup ''0.5''), SetVisible 0 True, RegisterAltRelease,
      SetHtml 0 (markup ''0.7''), SetVisible 0 False] \<and>
   \<not> visible (run ([] @ [press ''0.5'', press ''0.7'', AltRelease]) main)"
proof -
  have hid: "\<not> visible (run [] main)" by (simp add: main_fields)
  show ?thesis
    using scenario_press_press_release [OF hid, of "''0.5''" "''0.7''"] hid
    by (simp add: main_fields del: deliver.simps)
qed

text \<open>
  C3. A hotkey press delivered while \<^verbatim>\<open>visible\<close> is false (the toggle is Hidden) makes the
  handler call \<^verbatim>\<open>setVisible(true)\<close> on the surface, set \<^verbatim>\<open>visible\<close> to true, and register
  exactly one release callback with \<^verbatim>\<open>registerAltRelease\<close>: the calls added to the trace are
  the content update, one \<^verbatim>\<open>setVisible(true)\<close> and one \<^verbatim>\<open>registerAltRelease\<close>, in this order,
  and the pending callbacks grow by the one callback. The state is any state in which the
  hotkey is registered as the module body registers it.
\<close>

theorem hidden_press_shows:
  "\<not> visible s \<Longrightarrow> hotkeys s = [(Alt, 0x41, PressHandler)] \<Longrightarrow>
     calls (deliver (press rnd) s) =
       calls s @ [SetHtml (wv s) (markup rnd), SetVisible (wv s) True, RegisterAltRelease] \<and>
     visible (deliver (press rnd) s) \<and>
     pending (deliver (press rnd) s) = pending s @ [ReleaseHandler] \<and>
     webviews (deliver (press rnd) s) =
       update_webview (wv s) (\<lambda>w. w\<lparr>shown := True\<rparr>)
         (update_webview (wv s) (\<lambda>w. w\<lparr>html := markup rnd\<rparr>) (webviews s))"
  by (simp add: deliver_press_registered press_handler_fields del: deliver.simps)

theorem hidden_press_shows_witness:
  "\<not> visible main \<and> hotkeys main = [(Alt, 0x41, PressHandler)] \<and>
   calls (deliver (press ''0.5'') main) =
     [OpenWebview ''test'' 400 400, RegisterHotkey Alt 0x41,
      SetHtml 0 (markup ''0.5''), SetVisible 0 True, RegisterAltRelease] \<and>
   visible (deliver (press ''0.5'') main) \<and>
   pending (deliver (press ''0.5'') main) = [ReleaseHandler] \<and>
   map shown (webviews (deliver (press ''0.5'') main)) = [True]"
proof -
  have hid: "\<not> visible main" and reg: "hotkeys main = [(Alt, 0x41, PressHandler)]"
    by (simp_all add: main_fields)
  show ?thesis
    using hidden_press_shows [OF hid reg, of "''0.5''"] hid reg
    by (simp add: main_fields update_webview_def del: deliver.simps)
qed

text \<open>
  C4. The release callback, whenever it runs, calls \<^verbatim>\<open>setVisible(false)\<close> exactly once (it is
  the only call it adds to the trace), hides the surface and sets \<^verbatim>\<open>visible\<close> to false. When
  it is the pending callback, a release of the modifier runs it once and leaves no callback
  pending.
\<close>

theorem release_hides_once:
  "calls (release_handler s) = calls s @ [SetVisible (wv s) False] \<and>
   \<not> visible (release_handler s) \<and>
   webviews (release_handler s) =
     update_webview (wv s) (\<lambda>w. w\<lparr>shown := False\<rparr>) (webviews s) \<and>
   (pending s = [ReleaseHandler] \<longrightarrow>
      calls (deliver AltRelease s) = calls s @ [SetVisible (wv s) False] \<and>
      \<not> visible (deliver AltRelease s) \<and>
      pending (deliver AltRelease s) = [] \<and>
      webviews (deliver AltRelease s) =
        update_webview (wv s) (\<lambda>w. w\<lparr>shown := False\<rparr>) (webviews s))"
  by (simp add: release_handler_fields)

theorem release_hides_once_witness:
  "pending (deliver (press ''0.5'') main) = [ReleaseHandler] \<and>
   calls (deliver AltRelease (deliver (press ''0.5'') main)) =
     [OpenWebview ''test'' 400 400, RegisterHotkey Alt 0x41,
      SetHtml 0 (markup ''0.5''), SetVisible 0 True, RegisterAltRelease, SetVisible 0 False] \<and>
   \<not> visible (deliver AltRelease (deliver (press ''0.5'') main)) \<and>
   pending (deliver AltRelease (deliver (press ''0.5'') main)) = [] \<and>
   map shown (webviews (deliver AltRelease (deliver (press ''0.5'') main))) = [False]"
proof -
  let ?s = "deliver (press ''0.5'') main"
  have s: "?s = press_handler ''0.5'' main"
    by (rule deliver_press [OF toggle_inv_main])
  have pend: "pending ?s = [ReleaseHandler]"
    by (simp add: s press_handler_fields main_fields)
  show ?thesis
    using release_hides_once [of ?s] pend
    by (simp add: s press_handler_fields main_fields update_webview_def del: deliver.simps)
qed

text \<open>
  C5. \<^verbatim>\<open>visible\<close> is false at the start of the process; after any number of complete
  press/release cycles it is false again and no release callback is pending; and at every
  point during the cycles (after any number \<open>n\<close> of their events) at most one release
  callback is pending.
\<close>

theorem cycles_round_trip:
  "\<not> visible main \<and>
   \<not> visible (run (cycles rs) main) \<and>
   pending (run (cycles rs) main) = [] \<and>
   length (pending (run (take n (cycles rs)) main)) \<le> 1"
  using run_cycles_hidden [OF toggle_inv_main, of rs]
  by (simp add: reach_pending main_fields)



text \<open>
  C7. The trace of every run starts with the two calls of the module body, of which
  \<^verbatim>\<open>openWebview\<close> is the first, made before any event is delivered; it holds no other
  \<^verbatim>\<open>openWebview\<close> call and no \<^verbatim>\<open>exit\<close> call; the handle \<^verbatim>\<open>wv\<close> stays the one returned at
  startup, every call on a handle is on this one, and its surface stays the only surface,
  alive, with the title and size it was opened with. In any state at all, delivering an event
  adds no \<^verbatim>\<open>openWebview\<close> and no \<^verbatim>\<open>exit\<close> call.
\<close>

theorem one_webview_for_all_cycles:
  "calls main = [OpenWebview ''test'' 400 400, RegisterHotkey Alt 0x41] \<and>
   take 2 (calls (run evs main)) = calls main \<and>
   filter is_openWebview (calls (run evs main)) = [OpenWebview ''test'' 400 400] \<and>
   filter is_exit (calls (run evs main)) = [] \<and>
   wv (run evs main) = 0 \<and>
   map frame_of (webviews (run evs main)) = [(''test'', 400, 400, True)] \<and>
   set (map handle_of (calls (run evs main))) \<subseteq> {None, Some 0} \<and>
   filter is_openWebview (calls (deliver e s)) = filter is_openWebview (calls s) \<and>
   filter is_exit (calls (deliver e s)) = filter is_exit (calls s)"
proof -
  obtain cs where "calls (run evs main) = calls main @ cs"
    using reach_calls_extend [of evs] ..
  then have "take 2 (calls (run evs main)) = calls main"
    by (simp add: main_fields)
  then show ?thesis
    using reach_handles [of evs]
    by (simp add: main_fields reach_opens reach_exits reach_wv reach_frames deliver_opens
        deliver_exits del: deliver.simps)
qed

text \<open>
  C8. With the release delivered under the one-shot contract (\<open>deliver AltRelease\<close> runs
  each pending callback once and keeps none), in every event sequence from the start of the
  process the calls come in order (\<open>phase_run\<close>): each \<^verbatim>\<open>setVisible(false)\<close>, which only
  the release callback makes, follows the registration that follows its own
  \<^verbatim>\<open>setVisible(true)\<close>, once per show, so shows and hides alternate; a callback is pending
  exactly while \<^verbatim>\<open>visible\<close> is true; a press never leaves a second callback pending, since
  while one is pending the guard returns before \<^verbatim>\<open>registerAltRelease\<close>; and a release leaves
  none.
\<close>

theorem release_fires_in_order:
  "phase_run Idle (calls (run evs main)) =
     Some (if visible (run evs main) then Armed else Idle) \<and>
   alternates True (setVisible_args (calls (run evs main))) \<and>
   pending (run evs main) = (if visible (run evs main) then [ReleaseHandler] else []) \<and>
   pending (deliver (press rnd) (run evs main)) = [ReleaseHandler] \<and>
   pending (deliver AltRelease (run evs main)) = []"
proof -
  note inv = toggle_inv_reach [of evs]
  show ?thesis
    using reach_setVisible_args [of evs]
    by (simp add: reach_phase reach_pending deliver_press [OF inv] deliver_release [OF inv]
        press_handler_fields release_handler_fields del: deliver.simps)
qed

text \<open>
  C9. Every hotkey press makes the handler call \<^verbatim>\<open>setHtml\<close> exactly once, also while
  \<^verbatim>\<open>visible\<close> is true: the content update is the first call the press adds, the number of
  \<^verbatim>\<open>setHtml\<close> calls in the trace grows by one, and the surface's content is the new markup
  afterwards. While visible, that update is the whole effect of the press on the surface.
\<close>

theorem press_always_sets_html:
  "hotkeys s = [(Alt, 0x41, PressHandler)] \<Longrightarrow>
     calls (deliver (press rnd) s) =
       calls s @ SetHtml (wv s) (markup rnd) #
         (if visible s then [] else [SetVisible (wv s) True, RegisterAltRelease]) \<and>
     length (filter is_setHtml (calls (deliver (press rnd) s))) =
       Suc (length (filter is_setHtml (calls s))) \<and>
     (if visible s
      then webviews (deliver (press rnd) s) =
             update_webview (wv s) (\<lambda>w. w\<lparr>html := markup rnd\<rparr>) (webviews s)
      else webviews (deliver (press rnd) s) =
             update_webview (wv s) (\<lambda>w. w\<lparr>shown := True\<rparr>)
               (update_webview (wv s) (\<lambda>w. w\<lparr>html := markup rnd\<rparr>) (webviews s))) \<and>
     (wv s < length (webviews s) \<longrightarrow>
        html (webviews (deliver (press rnd) s) ! wv s) = markup rnd)"
  by (simp add: deliver_press_registered press_handler_fields update_webview_def
      del: deliver.simps)

theorem press_always_sets_html_witness:
  "hotkeys (deliver (press ''0.5'') main) = [(Alt, 0x41, PressHandler)] \<and>
   visible (deliver (press ''0.5'') main) \<and>
   wv (deliver (press ''0.5'') main) < length (webviews (deliver (press ''0.5'') main)) \<and>
   calls (deliver (press ''0.7'') (deliver (press ''0.5'') main)) =
     calls (deliver (press ''0.5'') main) @ [SetHtml 0 (markup ''0.7'')] \<and>
   map html (webviews (deliver (press ''0.5'') main)) = [markup ''0.5''] \<and>
   map html (webviews (deliver (press ''0.7'') (deliver (press ''0.5'') main))) =
     [markup ''0.7'']"
proof -
  let ?s = "deliver (press ''0.5'') main"
  have s: "?s = press_handler ''0.5'' main"
    by (rule deliver_press [OF toggle_inv_main])
  have reg: "hotkeys ?s = [(Alt, 0x41, PressHandler)]"
    by (simp add: s press_handler_fields main_fields)
  show ?thesis
    using press_always_sets_html [OF reg, of "''0.7''"] reg
    by (simp add: s press_handler_fields main_fields update_webview_def del: deliver.simps)
qed

text \<open>
  C10. Two runs of the program over event sequences of the same shape (the same presses and
  releases, whatever \<^verbatim>\<open>Math.random()\<close> returns in each) make the same \<^verbatim>\<open>setVisible\<close>
  calls, with the same arguments in the same order, have the same value of \<^verbatim>\<open>visible\<close>
  after every event, and their whole call traces are equal once the markup passed to
  \<^verbatim>\<open>setHtml\<close> is blanked.
\<close>

theorem runs_agree_up_to_markup:
  "map shape evs1 = map shape evs2 \<Longrightarrow>
     setVisible_args (calls (run evs1 main)) = setVisible_args (calls (run evs2 main)) \<and>
     (\<forall>n. visible (run (take n evs1) main) = visible (run (take n evs2) main)) \<and>
     map erase_markup (calls (run evs1 main)) = map erase_markup (calls (run evs2 main))"
proof -
  assume sh: "map shape evs1 = map shape evs2"
  have tr: "map erase_markup (calls (run evs1 main)) = map erase_markup (calls (run evs2 main))"
    using reach_agree [OF sh] by simp
  have "setVisible_args (map erase_markup (calls (run evs1 main))) =
        setVisible_args (map erase_markup (calls (run evs2 main)))"
    by (simp only: tr)
  then have args: "setVisible_args (calls (run evs1 main)) =
                   setVisible_args (calls (run evs2 main))"
    by (simp only: setVisible_args_erase)
  have "visible (run (take n evs1) main) = visible (run (take n evs2) main)" for n
  proof -
    have "map shape (take n evs1) = map shape (take n evs2)"
      using arg_cong [OF sh, of "take n"] by (simp only: take_map)
    then show ?thesis using reach_agree by blast
  qed
  with tr args show ?thesis by blast
qed

theorem runs_agree_up_to_markup_witness:
  "map shape [press ''0.5'', press ''0.6'', AltRelease] =
     map shape [press ''0.1'', press ''0.2'', AltRelease] \<and>
   setVisible_args (calls (run [press ''0.5'', press ''0.6'', AltRelease] main)) =
     setVisible_args (calls (run [press ''0.1'', press ''0.2'', AltRelease] main)) \<and>
   (\<forall>n. visible (run (take n [press ''0.5'', press ''0.6'', AltRelease]) main) =
        visible (run (take n [press ''0.1'', press ''0.2'', AltRelease]) main)) \<and>
   calls (run [press ''0.5'', press ''0.6'', AltRelease] main) \<noteq>
     calls (run [press ''0.1'', press ''0.2'', AltRelease] main)"
proof -
  have sh: "map shape [press ''0.5'', press ''0.6'', AltRelease] =
            map shape [press ''0.1'', press ''0.2'', AltRelease]"
    by (simp add: press_def)
  have s: "deliver (press r) main = press_handler r main" for r
    by (rule deliver_press [OF toggle_inv_main])
  have diff: "calls (run [press ''0.5'', press ''0.6'', AltRelease] main) \<noteq>
              calls (run [press ''0.1'', press ''0.2'', AltRelease] main)"
    by (simp add: s deliver_press_registered press_handler_fields main_fields
        deliver_release toggle_inv_def release_handler_fields markup_def del: deliver.simps)
  show ?thesis
    using runs_agree_up_to_markup [OF sh] sh diff by blast
qed

end
